theory Spec2Isabelle
  imports Complex_Main
begin

section \<open>Text primitives of the host language\<close>

text \<open>
  The program is Python; its texts are modelled as \<^typ>\<open>string\<close>. The functions below
  are the few operations of \<^verbatim>\<open>str\<close> and \<^verbatim>\<open>re\<close> that \<^verbatim>\<open>src/chess.py\<close> calls.
\<close>

text \<open>\<^verbatim>\<open>s.startswith(p)\<close>\<close>

fun startswith :: "string \<Rightarrow> string \<Rightarrow> bool" where
  "startswith s [] = True"
| "startswith [] (p # ps) = False"
| "startswith (c # s) (p # ps) = (c = p \<and> startswith s ps)"

text \<open>\<^verbatim>\<open>sub in s\<close>: \<open>sub\<close> occurs in \<open>s\<close> as a contiguous piece.\<close>

fun substring_in :: "string \<Rightarrow> string \<Rightarrow> bool" where
  "substring_in sub [] = (sub = [])"
| "substring_in sub (c # s) = (startswith (c # s) sub \<or> substring_in sub s)"

text \<open>
  \<^verbatim>\<open>re.sub(r'Q(x)?', '', s)\<close>: every \<open>Q\<close>, together with an \<open>x\<close> that directly follows it,
  is deleted, scanning from the left; the optional group is greedy.
\<close>

fun sub_queen_marker :: "string \<Rightarrow> string" where
  "sub_queen_marker [] = []"
| "sub_queen_marker [c] = (if c = CHR ''Q'' then [] else [c])"
| "sub_queen_marker (c # d # s) =
     (if c = CHR ''Q''
      then (if d = CHR ''x'' then sub_queen_marker s else sub_queen_marker (d # s))
      else c # sub_queen_marker (d # s))"

text \<open>
  \<^verbatim>\<open>math.ceil(n / 2)\<close> for an integer \<open>n\<close>. The source divides as a float; the quotient of
  an index of a list in memory by two is exact there, so the ceiling is the integer one.
\<close>

definition ceil_half :: "int \<Rightarrow> int" where
  "ceil_half n = (n + 1) div 2"

section \<open>The blunder detector: \<^verbatim>\<open>_get_botez_gambit\<close>\<close>

datatype color = White | Black

text \<open>The dictionary \<^verbatim>\<open>flip_color\<close>.\<close>

fun flip_color :: "color \<Rightarrow> color" where
  "flip_color White = Black"
| "flip_color Black = White"

text \<open>
  The dictionary \<^verbatim>\<open>status\<close>: its three keys are fixed, so it is a record. The keys
  \<^verbatim>\<open>'white'\<close> and \<^verbatim>\<open>'black'\<close> hold the two tracked queen squares.
\<close>

record status =
  white :: string
  black :: string
  to_move :: color

text \<open>\<^verbatim>\<open>status[c]\<close> and \<^verbatim>\<open>status[c] = sq\<close> for a colour key \<open>c\<close>.\<close>

fun queen_square :: "status \<Rightarrow> color \<Rightarrow> string" where
  "queen_square st White = white st"
| "queen_square st Black = black st"

fun set_queen_square :: "status \<Rightarrow> color \<Rightarrow> string \<Rightarrow> status" where
  "set_queen_square st White sq = st\<lparr>white := sq\<rparr>"
| "set_queen_square st Black sq = st\<lparr>black := sq\<rparr>"

definition initial_status :: status where
  "initial_status = \<lparr>white = ''d1'', black = ''d8'', to_move = White\<rparr>"

text \<open>
  \<^verbatim>\<open>fallen_queen\<close> is \<^verbatim>\<open>None\<close> or the pair (full-move number, move text). The state
  \<open>NORMAL\<close> of the specification is \<^term>\<open>None\<close>, \<open>PENDING\<close> is \<^term>\<open>Some f\<close>.
\<close>

type_synonym finding = "int \<times> string"

text \<open>
  One pass through the body of the \<^verbatim>\<open>for\<close> loop either leaves the function with
  \<^verbatim>\<open>return\<close>, or goes on to the next token with the updated variables.
\<close>

datatype outcome = Return "finding option" | Continue status "finding option"

text \<open>\<^verbatim>\<open>'x{}'.format(opponent_queen)\<close> for the queen of the side that is not to move.\<close>

definition opponent_queen :: "status \<Rightarrow> string" where
  "opponent_queen st = queen_square st (flip_color (to_move st))"

definition queen_taken :: "status \<Rightarrow> string \<Rightarrow> bool" where
  "queen_taken st move = substring_in (CHR ''x'' # opponent_queen st) move"

text \<open>Lines 123 to 127: the queen-move update and the change of the side to move.\<close>

definition advance :: "status \<Rightarrow> string \<Rightarrow> status" where
  "advance st move =
     (let st1 = (if startswith move ''Q''
                 then set_queen_square st (to_move st)
                        (sub_queen_marker (filter (\<lambda>c. c \<noteq> CHR ''+'') move))
                 else st)
      in st1\<lparr>to_move := flip_color (to_move st1)\<rparr>)"

text \<open>The loop body, lines 112 to 127, for the token \<open>move\<close> at index \<open>i\<close>.\<close>

definition process_move :: "nat \<Rightarrow> string \<Rightarrow> status \<Rightarrow> finding option \<Rightarrow> outcome" where
  "process_move i move st fallen_queen =
     (if fallen_queen \<noteq> None \<and> CHR ''x'' \<notin> set move \<and> CHR ''#'' \<notin> set move
      then Return fallen_queen
      else if queen_taken st move
      then (if fallen_queen \<noteq> None
            then Return None
            else Continue (advance st move) (Some (ceil_half (int i + 1), move)))
      else Continue (advance st move) fallen_queen)"

text \<open>
  The loop from index \<open>i\<close> on; falling off its end is Python's implicit
  \<^verbatim>\<open>return None\<close>.
\<close>

fun replay :: "nat \<Rightarrow> string list \<Rightarrow> status \<Rightarrow> finding option \<Rightarrow> finding option" where
  "replay i [] st fallen_queen = None"
| "replay i (move # moves) st fallen_queen =
     (case process_move i move st fallen_queen of
        Return r \<Rightarrow> r
      | Continue st' fallen_queen' \<Rightarrow> replay (Suc i) moves st' fallen_queen')"

definition get_botez_gambit :: "string list \<Rightarrow> finding option" where
  "get_botez_gambit moves = replay 0 moves initial_status None"

text \<open>
  The same loop run over a prefix of the tokens only: it yields the variables with which
  the next token is examined, or the value an earlier \<^verbatim>\<open>return\<close> gave.
\<close>

fun run_prefix :: "nat \<Rightarrow> string list \<Rightarrow> status \<Rightarrow> finding option \<Rightarrow> outcome" where
  "run_prefix i [] st fallen_queen = Continue st fallen_queen"
| "run_prefix i (move # moves) st fallen_queen =
     (case process_move i move st fallen_queen of
        Return r \<Rightarrow> Return r
      | Continue st' fallen_queen' \<Rightarrow> run_prefix (Suc i) moves st' fallen_queen')"

definition examined_with :: "string list \<Rightarrow> status \<Rightarrow> finding option \<Rightarrow> bool" where
  "examined_with pre st fallen_queen =
     (run_prefix 0 pre initial_status None = Continue st fallen_queen)"

section \<open>The move tokenizer: \<^verbatim>\<open>_get_moves_list\<close>\<close>

text \<open>
  Characters are the code points below 256. On these, Python's \<^verbatim>\<open>\s\<close> (and the
  whitespace of \<^verbatim>\<open>str.strip()\<close>) is the set below, \<^verbatim>\<open>\d\<close> is \<open>0\<close> to \<open>9\<close>, and \<^verbatim>\<open>.\<close>
  is every character but the line feed.
\<close>

definition newline :: char where
  "newline = CHR 0x0A"

definition is_space :: "char \<Rightarrow> bool" where
  "is_space c = (c \<in> set [CHR 0x09, CHR 0x0A, CHR 0x0B, CHR 0x0C, CHR 0x0D,
                            CHR 0x1C, CHR 0x1D, CHR 0x1E, CHR 0x1F, CHR 0x20,
                            CHR 0x85, CHR 0xA0])"

definition is_digit :: "char \<Rightarrow> bool" where
  "is_digit c = (c \<in> set ''0123456789'')"

text \<open>Put a character in front of the first piece of a list of pieces.\<close>

fun push_char :: "char \<Rightarrow> string list \<Rightarrow> string list" where
  "push_char c [] = [[c]]"
| "push_char c (f # fs) = (c # f) # fs"

text \<open>
  \<^verbatim>\<open>s.split(sep)\<close> for a separator that is not empty (the only call passes two line
  feeds): the pieces between the occurrences of \<open>sep\<close>, found from the left without overlap.
\<close>

fun split_str :: "string \<Rightarrow> string \<Rightarrow> string list" where
  "split_str sep [] = [[]]"
| "split_str sep (c # s) =
     (if startswith (c # s) sep
      then [] # split_str sep (drop (length sep - 1) s)
      else push_char c (split_str sep s))"

text \<open>\<^verbatim>\<open>s.replace(old, new)\<close> for an \<open>old\<close> that is not empty, as in all four calls.\<close>

fun replace :: "string \<Rightarrow> string \<Rightarrow> string \<Rightarrow> string" where
  "replace old new [] = []"
| "replace old new (c # s) =
     (if startswith (c # s) old
      then new @ replace old new (drop (length old - 1) s)
      else c # replace old new s)"

text \<open>
  The length of the match of \<^verbatim>\<open>\{.+?\}\<close> at the start of a text, if there is one: an
  opening brace, one character that is not a line feed, then as few such characters as
  possible up to a closing brace.
\<close>

fun match_braces :: "string \<Rightarrow> nat option" where
  "match_braces (a # b # s) =
     (if a = CHR ''{'' \<and> b \<noteq> newline
      then (case dropWhile (\<lambda>c. c \<noteq> CHR ''}'' \<and> c \<noteq> newline) s of
              [] \<Rightarrow> None
            | d # _ \<Rightarrow>
                if d = CHR ''}''
                then Some (length (takeWhile (\<lambda>c. c \<noteq> CHR ''}'' \<and> c \<noteq> newline) s) + 3)
                else None)
      else None)"
| "match_braces s = None"

text \<open>\<^verbatim>\<open>re.sub(r'\{.+?\}', '', s)\<close>\<close>

fun sub_braces :: "string \<Rightarrow> string" where
  "sub_braces [] = []"
| "sub_braces (c # s) =
     (case match_braces (c # s) of
        Some n \<Rightarrow> sub_braces (drop (n - 1) s)
      | None \<Rightarrow> c # sub_braces s)"

text \<open>\<^verbatim>\<open>s.strip(chars)\<close>, the characters to strip given as a predicate.\<close>

definition strip :: "(char \<Rightarrow> bool) \<Rightarrow> string \<Rightarrow> string" where
  "strip P s = rev (dropWhile P (rev (dropWhile P s)))"

text \<open>
  \<^verbatim>\<open>re.sub(r'\s(\s)+?', ' ', s)\<close>: the quantifier \<^verbatim>\<open>+?\<close> is lazy and nothing follows it,
  so each match is exactly two whitespace characters.
\<close>

fun sub_spaces :: "string \<Rightarrow> string" where
  "sub_spaces (a # b # s) =
     (if is_space a \<and> is_space b then CHR '' '' # sub_spaces s else a # sub_spaces (b # s))"
| "sub_spaces s = s"

text \<open>
  The length of the match of \<^verbatim>\<open>\d+\.\s?\<close>, and of \<^verbatim>\<open>\s?\d+\.\s?\<close>, at the start of a text.
  The digits are taken greedily; giving one back cannot help, since a period must follow.
\<close>

definition match_digits_dot :: "string \<Rightarrow> nat option" where
  "match_digits_dot s =
     (let ds = takeWhile is_digit s in
      if ds = [] then None
      else (case dropWhile is_digit s of
              [] \<Rightarrow> None
            | d # r \<Rightarrow>
                if d = CHR ''.''
                then Some (length ds + 1 +
                       (case r of [] \<Rightarrow> 0 | w # _ \<Rightarrow> if is_space w then 1 else 0))
                else None))"

definition match_move_number :: "string \<Rightarrow> nat option" where
  "match_move_number s =
     (case s of
        [] \<Rightarrow> None
      | c # r \<Rightarrow>
          if is_space c then map_option Suc (match_digits_dot r) else match_digits_dot s)"

text \<open>\<^verbatim>\<open>re.split(r'\s?\d+\.\s?', s)\<close>\<close>

fun re_split :: "string \<Rightarrow> string list" where
  "re_split [] = [[]]"
| "re_split (c # s) =
     (case match_move_number (c # s) of
        Some n \<Rightarrow> [] # re_split (drop (n - 1) s)
      | None \<Rightarrow> push_char c (re_split s))"

text \<open>The only exception the function can raise: \<^verbatim>\<open>[1]\<close> on a list of one piece.\<close>

datatype error = IndexError

text \<open>Lines 73 to 83, on the move text.\<close>

definition clean_moves :: "string \<Rightarrow> string" where
  "clean_moves moves =
     (let moves = sub_braces moves;
          moves = replace ''...'' ''.'' moves;
          moves = replace ''1-0'' [] moves;
          moves = replace ''0-1'' [] moves;
          moves = replace ''1/2-1/2'' [] moves;
          moves = strip is_space (strip (\<lambda>c. c = newline) moves)
      in sub_spaces moves)"

definition get_moves_list :: "string \<Rightarrow> error + string list" where
  "get_moves_list pgn =
     (case split_str [newline, newline] pgn of
        _ # moves # _ \<Rightarrow> Inr (tl (re_split (clean_moves moves)))
      | _ \<Rightarrow> Inl IndexError)"

text \<open>A move-number marker inside a token: a digit directly followed by a period.\<close>

fun has_move_number :: "string \<Rightarrow> bool" where
  "has_move_number (a # b # s) = ((is_digit a \<and> b = CHR ''.'') \<or> has_move_number (b # s))"
| "has_move_number s = False"

section \<open>Facts about the loop\<close>

lemma ceil_half_ceiling: "ceil_half n = \<lceil>real_of_int n / 2\<rceil>"
  unfolding ceil_half_def by linarith

lemma replay_append:
  "replay i (pre @ rest) st fq =
     (case run_prefix i pre st fq of
        Return r \<Rightarrow> r
      | Continue st' fq' \<Rightarrow> replay (i + length pre) rest st' fq')"
proof (induction pre arbitrary: i st fq)
  case Nil
  show ?case by simp
next
  case (Cons m pre)
  show ?case
    by (cases "process_move i m st fq") (simp_all add: Cons.IH split: outcome.splits)
qed

lemma to_move_advance: "to_move (advance st move) = flip_color (to_move st)"
  by (cases "to_move st") (simp_all add: advance_def Let_def)

lemma process_move_flips:
  "process_move i move st fq = Continue st' fq' \<Longrightarrow> to_move st' = flip_color (to_move st)"
  by (auto simp: process_move_def to_move_advance split: if_splits)

lemma run_prefix_to_move:
  "run_prefix i pre st fq = Continue st' fq' \<Longrightarrow>
     to_move st' = (if even (length pre) then to_move st else flip_color (to_move st))"
proof (induction pre arbitrary: i st fq)
  case Nil
  then show ?case by simp
next
  case (Cons m pre)
  from Cons.prems obtain st1 fq1 where
    step: "process_move i m st fq = Continue st1 fq1" and
    rest: "run_prefix (Suc i) pre st1 fq1 = Continue st' fq'"
    by (cases "process_move i m st fq") simp_all
  have "to_move st1 = flip_color (to_move st)"
    using step by (rule process_move_flips)
  with Cons.IH [OF rest] show ?case
    by (cases "to_move st") simp_all
qed

lemma run_prefix_recorded:
  "run_prefix i pre st fq = Continue st' (Some f) \<Longrightarrow>
     fq = Some f \<or> (\<exists>k < length pre. f = (ceil_half (int (i + k) + 1), pre ! k))"
proof (induction pre arbitrary: i st fq)
  case Nil
  then show ?case by simp
next
  case (Cons m pre)
  from Cons.prems obtain st1 fq1 where
    step: "process_move i m st fq = Continue st1 fq1" and
    rest: "run_prefix (Suc i) pre st1 fq1 = Continue st' (Some f)"
    by (cases "process_move i m st fq") simp_all
  from Cons.IH [OF rest] show ?case
  proof
    assume "fq1 = Some f"
    with step have "fq = Some f \<or> f = (ceil_half (int i + 1), m)"
      by (auto simp: process_move_def split: if_splits)
    then show ?thesis by auto
  next
    assume "\<exists>k < length pre. f = (ceil_half (int (Suc i + k) + 1), pre ! k)"
    then obtain k where "k < length pre" "f = (ceil_half (int (Suc i + k) + 1), pre ! k)"
      by blast
    then have "Suc k < length (m # pre) \<and> f = (ceil_half (int (i + Suc k) + 1), (m # pre) ! Suc k)"
      by simp
    then show ?thesis by blast
  qed
qed

lemma get_botez_gambit_append:
  "examined_with pre st fq \<Longrightarrow> get_botez_gambit (pre @ rest) = replay (length pre) rest st fq"
  by (simp add: get_botez_gambit_def examined_with_def replay_append)

lemma sub_queen_marker_id: "CHR ''Q'' \<notin> set s \<Longrightarrow> sub_queen_marker s = s"
  by (induction s rule: sub_queen_marker.induct) auto

lemma advance_non_queen:
  "\<not> startswith move ''Q'' \<Longrightarrow> advance st move = st\<lparr>to_move := flip_color (to_move st)\<rparr>"
  by (simp add: advance_def)

lemma advance_queen:
  "startswith move ''Q'' \<Longrightarrow>
     queen_square (advance st move) (to_move st) =
       sub_queen_marker (filter (\<lambda>c. c \<noteq> CHR ''+'') move) \<and>
     queen_square (advance st move) (flip_color (to_move st)) =
       queen_square st (flip_color (to_move st))"
  by (cases "to_move st") (simp_all add: advance_def)

lemma process_move_continue:
  "process_move i move st fq = Continue st' fq' \<Longrightarrow> st' = advance st move"
  by (auto simp: process_move_def split: if_splits)

lemmas detector_eval =
  get_botez_gambit_def examined_with_def process_move_def queen_taken_def
  opponent_queen_def advance_def initial_status_def ceil_half_def

section \<open>Facts about the tokenizer\<close>

lemma split_str_not_Nil: "split_str sep s \<noteq> []"
  by (induction sep s rule: split_str.induct) (auto simp: neq_Nil_conv)

lemma length_push_char: "fs \<noteq> [] \<Longrightarrow> length (push_char c fs) = length fs"
  by (cases fs) simp_all

lemma split_str_second:
  "(2 \<le> length (split_str sep s)) = (sep \<noteq> [] \<and> substring_in sep s \<or> sep = [] \<and> s \<noteq> [])"
proof (induction sep s rule: split_str.induct)
  case (1 sep)
  show ?case by simp
next
  case (2 sep c s)
  show ?case
  proof (cases "startswith (c # s) sep")
    case True
    have "1 \<le> length (split_str sep (drop (length sep - 1) s))"
      using split_str_not_Nil [of sep "drop (length sep - 1) s"]
      by (cases "split_str sep (drop (length sep - 1) s)") simp_all
    with True show ?thesis by auto
  next
    case False
    then have "sep \<noteq> []" by auto
    with False 2(2) show ?thesis
      by (simp add: length_push_char split_str_not_Nil)
  qed
qed

lemma get_moves_list_cases:
  "get_moves_list pgn =
     (if substring_in [newline, newline] pgn
      then Inr (tl (re_split (clean_moves (split_str [newline, newline] pgn ! 1))))
      else Inl IndexError)"
proof -
  have len: "(2 \<le> length (split_str [newline, newline] pgn)) = substring_in [newline, newline] pgn"
    by (simp add: split_str_second)
  show ?thesis
  proof (cases "split_str [newline, newline] pgn")
    case Nil
    with len show ?thesis by (simp add: get_moves_list_def)
  next
    case (Cons a r)
    note outer = Cons
    show ?thesis
    proof (cases r)
      case Nil
      with outer len show ?thesis by (simp add: get_moves_list_def)
    next
      case (Cons b r')
      with outer len show ?thesis by (simp add: get_moves_list_def)
    qed
  qed
qed

lemma digit_not_space: "is_digit c \<Longrightarrow> \<not> is_space c"
  by (auto simp: is_digit_def is_space_def)

lemma dot_not_digit: "\<not> is_digit CHR ''.''"
  by (simp add: is_digit_def)

lemma match_at_number: "is_digit d \<Longrightarrow> match_move_number (d # CHR ''.'' # r) \<noteq> None"
  by (simp add: match_move_number_def match_digits_dot_def digit_not_space dot_not_digit)

lemma re_split_not_Nil: "re_split s \<noteq> []"
  by (induction s rule: re_split.induct) (auto simp: neq_Nil_conv split: option.splits)

lemma re_split_first:
  "re_split s = (x # f) # fs \<Longrightarrow> match_move_number s = None \<and> (\<exists>s'. s = x # s')"
proof (cases s)
  case Nil
  assume "re_split s = (x # f) # fs"
  with Nil show ?thesis by simp
next
  case (Cons c s')
  assume r: "re_split s = (x # f) # fs"
  show ?thesis
  proof (cases "match_move_number (c # s')")
    case None
    with r Cons show ?thesis
      using re_split_not_Nil [of s'] by (cases "re_split s'") simp_all
  next
    case (Some n)
    with r Cons show ?thesis by simp
  qed
qed

lemma re_split_no_move_number: "f \<in> set (re_split s) \<Longrightarrow> \<not> has_move_number f"
proof (induction s arbitrary: f rule: re_split.induct)
  case 1
  then show ?case by simp
next
  case (2 c s)
  show ?case
  proof (cases "match_move_number (c # s)")
    case (Some n)
    with 2(2) [OF Some] 2(3) show ?thesis by auto
  next
    case None
    obtain g gs where g: "re_split s = g # gs"
      using re_split_not_Nil [of s] by (cases "re_split s") auto
    have tail: "\<not> has_move_number h" if "h \<in> set (g # gs)" for h
      using 2(1) [OF None] that g by simp
    have head: "\<not> has_move_number (c # g)"
    proof (cases g)
      case Nil
      then show ?thesis by simp
    next
      case (Cons b g')
      with g have "re_split s = (b # g') # gs" by simp
      from re_split_first [OF this] obtain s' where s': "s = b # s'" by blast
      have "\<not> (is_digit c \<and> b = CHR ''.'')"
        using None match_at_number [of c s'] s' by auto
      moreover have "\<not> has_move_number (b # g')"
        using tail [of g] Cons by simp
      ultimately show ?thesis using Cons by simp
    qed
    from 2(3) None g have "f = c # g \<or> f \<in> set gs" by simp
    with head tail show ?thesis by auto
  qed
qed

lemmas tokenizer_eval =
  get_moves_list_def clean_moves_def match_move_number_def match_digits_dot_def
  is_space_def is_digit_def newline_def strip_def

section \<open>Claims about the detector\<close>

text \<open>
  C1. Whenever a token is examined while a queen capture is pending, and the token holds
  neither the capture marker \<open>x\<close> nor the marker \<open>#\<close> that line 113 tests for a check,
  the detector returns the pending finding at that token, whatever follows. The pending
  finding is the pair recorded at an earlier token \<open>k\<close>: the full-move number of \<open>k\<close> and the
  text of that token.
\<close>

theorem pending_quiet_token_emits:
  assumes "examined_with pre st (Some f)"
    and "CHR ''x'' \<notin> set move" and "CHR ''#'' \<notin> set move"
  shows "process_move (length pre) move st (Some f) = Return (Some f)
       \<and> get_botez_gambit (pre @ move # rest) = Some f
       \<and> (\<exists>k < length pre. f = (ceil_half (int k + 1), pre ! k))"
proof -
  have step: "process_move (length pre) move st (Some f) = Return (Some f)"
    using assms(2,3) by (simp add: process_move_def)
  have "get_botez_gambit (pre @ move # rest) = replay (length pre) (move # rest) st (Some f)"
    using assms(1) by (rule get_botez_gambit_append)
  then have run: "get_botez_gambit (pre @ move # rest) = Some f"
    by (simp add: step)
  have "run_prefix 0 pre initial_status None = Continue st (Some f)"
    using assms(1) by (simp add: examined_with_def)
  from run_prefix_recorded [OF this]
  have "\<exists>k < length pre. f = (ceil_half (int k + 1), pre ! k)" by simp
  with step run show ?thesis by blast
qed

theorem pending_quiet_token_emits_witness:
  "examined_with [''d4'', ''d5'', ''Qd3'', ''Qd6'', ''Qxd6'']
     \<lparr>white = ''d6'', black = ''d6'', to_move = Black\<rparr> (Some (3, ''Qxd6''))
   \<and> CHR ''x'' \<notin> set ''a6'' \<and> CHR ''#'' \<notin> set ''a6''
   \<and> get_botez_gambit [''d4'', ''d5'', ''Qd3'', ''Qd6'', ''Qxd6'', ''a6'', ''Qd1'']
       = Some (3, ''Qxd6'')"
proof -
  have h: "examined_with [''d4'', ''d5'', ''Qd3'', ''Qd6'', ''Qxd6'']
     \<lparr>white = ''d6'', black = ''d6'', to_move = Black\<rparr> (Some (3, ''Qxd6''))"
    by (simp add: detector_eval)
  have x: "CHR ''x'' \<notin> set ''a6''" and m: "CHR ''#'' \<notin> set ''a6''" by simp_all
  from pending_quiet_token_emits [OF h x m, of "[''Qd1'']"] h x m show ?thesis by simp
qed

text \<open>
  C2, as stated, fails: the number the code records for a capture at 0-based index \<open>p - 1\<close>
  is \<open>ceil (p / 2)\<close>, not \<open>ceil ((p + 1) / 2)\<close>. Black's capture on ply 2 is reported at
  full move 1, where the claim's formula gives 2.
\<close>

theorem finding_number_counterexample:
  "examined_with [''e4''] \<lparr>white = ''d1'', black = ''d8'', to_move = Black\<rparr> None
   \<and> queen_taken \<lparr>white = ''d1'', black = ''d8'', to_move = Black\<rparr> ''fxd1''
   \<and> CHR ''x'' \<notin> set ''a3'' \<and> CHR ''#'' \<notin> set ''a3'' \<and> CHR ''+'' \<notin> set ''a3''
   \<and> get_botez_gambit [''e4'', ''fxd1'', ''a3''] = Some (1, ''fxd1'')
   \<and> get_botez_gambit [''e4'', ''fxd1'', ''a3''] \<noteq> Some (\<lceil>(2 + 1) / (2::real)\<rceil>, ''fxd1'')"
  by (simp add: detector_eval)

text \<open>
  C2, amended. Let the token at 0-based index \<open>p - 1\<close> (ply \<open>p\<close>) be examined with no capture
  pending and contain \<open>x\<close> followed by the tracked square of the opponent's queen, and let the
  next token contain neither \<open>x\<close> nor \<open>#\<close>. Then the detector returns the finding whose
  number is \<open>ceil (p / 2)\<close> and whose text is the token of ply \<open>p\<close>.
\<close>

theorem finding_after_uncontested_capture:
  assumes "examined_with pre st None"
    and "queen_taken st capture"
    and "CHR ''x'' \<notin> set quiet" and "CHR ''#'' \<notin> set quiet"
    and "p = length pre + 1"
  shows "get_botez_gambit (pre @ capture # quiet # rest) = Some (\<lceil>real p / 2\<rceil>, capture)"
proof -
  have first: "process_move (length pre) capture st None
      = Continue (advance st capture) (Some (ceil_half (int (length pre) + 1), capture))"
    using assms(2) by (simp add: process_move_def)
  have second: "process_move (Suc (length pre)) quiet (advance st capture)
      (Some (ceil_half (int (length pre) + 1), capture))
      = Return (Some (ceil_half (int (length pre) + 1), capture))"
    using assms(3,4) by (simp add: process_move_def)
  have "get_botez_gambit (pre @ capture # quiet # rest)
      = replay (length pre) (capture # quiet # rest) st None"
    using assms(1) by (rule get_botez_gambit_append)
  also have "\<dots> = Some (ceil_half (int (length pre) + 1), capture)"
    by (simp add: first second)
  also have "ceil_half (int (length pre) + 1) = \<lceil>real p / 2\<rceil>"
    using assms(5) by (simp add: ceil_half_ceiling add.commute)
  finally show ?thesis .
qed

theorem finding_after_uncontested_capture_witness:
  "examined_with [''e4''] \<lparr>white = ''d1'', black = ''d8'', to_move = Black\<rparr> None
   \<and> queen_taken \<lparr>white = ''d1'', black = ''d8'', to_move = Black\<rparr> ''fxd1''
   \<and> CHR ''x'' \<notin> set ''a3'' \<and> CHR ''#'' \<notin> set ''a3''
   \<and> (2::nat) = length [''e4''] + 1
   \<and> get_botez_gambit [''e4'', ''fxd1'', ''a3'', ''Kxd1''] = Some (\<lceil>real 2 / 2\<rceil>, ''fxd1'')"
proof -
  have h: "examined_with [''e4''] \<lparr>white = ''d1'', black = ''d8'', to_move = Black\<rparr> None"
    by (simp add: detector_eval)
  have q: "queen_taken \<lparr>white = ''d1'', black = ''d8'', to_move = Black\<rparr> ''fxd1''"
    by (simp add: detector_eval)
  have x: "CHR ''x'' \<notin> set ''a3''" and m: "CHR ''#'' \<notin> set ''a3''" by simp_all
  have p: "(2::nat) = length [''e4''] + 1" by simp
  from finding_after_uncontested_capture [OF h q x m p, of "[''Kxd1'']"] h q x m p
  show ?thesis by simp
qed

text \<open>
  C3. Let the token of ply \<open>p\<close> be examined with no capture pending and take the opponent's
  queen (entering \<open>PENDING\<close>), and let the token of ply \<open>p + 1\<close> contain \<open>x\<close> followed by the
  square now tracked for the side that captured. Then the second token leaves the loop
  with \<^verbatim>\<open>return None\<close>, and the detector returns nothing whatever follows.
\<close>

theorem reciprocal_capture_returns_nothing:
  assumes "examined_with pre st None"
    and "queen_taken st capture"
    and "substring_in (CHR ''x'' # queen_square (advance st capture) (to_move st)) recapture"
  shows "process_move (length pre) capture st None
           = Continue (advance st capture) (Some (ceil_half (int (length pre) + 1), capture))
       \<and> process_move (Suc (length pre)) recapture (advance st capture)
           (Some (ceil_half (int (length pre) + 1), capture)) = Return None
       \<and> get_botez_gambit (pre @ capture # recapture # rest) = None"
proof -
  have first: "process_move (length pre) capture st None
      = Continue (advance st capture) (Some (ceil_half (int (length pre) + 1), capture))"
    using assms(2) by (simp add: process_move_def)
  have "opponent_queen (advance st capture) = queen_square (advance st capture) (to_move st)"
    by (cases "to_move st") (simp_all add: opponent_queen_def to_move_advance)
  with assms(3) have taken: "queen_taken (advance st capture) recapture"
    by (simp add: queen_taken_def)
  have "CHR ''x'' \<in> set recapture"
    using assms(3) by (induction recapture) auto
  with taken have second: "process_move (Suc (length pre)) recapture (advance st capture)
      (Some (ceil_half (int (length pre) + 1), capture)) = Return None"
    by (simp add: process_move_def)
  have "get_botez_gambit (pre @ capture # recapture # rest)
      = replay (length pre) (capture # recapture # rest) st None"
    using assms(1) by (rule get_botez_gambit_append)
  then have "get_botez_gambit (pre @ capture # recapture # rest) = None"
    by (simp add: first second)
  with first second show ?thesis by blast
qed

theorem reciprocal_capture_returns_nothing_witness:
  "examined_with [''d4'', ''d5'', ''Qd3'', ''Qd6'']
     \<lparr>white = ''d3'', black = ''d6'', to_move = White\<rparr> None
   \<and> queen_taken \<lparr>white = ''d3'', black = ''d6'', to_move = White\<rparr> ''Qxd6''
   \<and> substring_in ''xd6'' ''cxd6''
   \<and> get_botez_gambit [''d4'', ''d5'', ''Qd3'', ''Qd6'', ''Qxd6'', ''cxd6'', ''Nf3''] = None"
proof -
  have h: "examined_with [''d4'', ''d5'', ''Qd3'', ''Qd6'']
     \<lparr>white = ''d3'', black = ''d6'', to_move = White\<rparr> None"
    by (simp add: detector_eval)
  have q: "queen_taken \<lparr>white = ''d3'', black = ''d6'', to_move = White\<rparr> ''Qxd6''"
    by (simp add: detector_eval)
  have r: "substring_in (CHR ''x'' # queen_square
      (advance \<lparr>white = ''d3'', black = ''d6'', to_move = White\<rparr> ''Qxd6'')
      (to_move \<lparr>white = ''d3'', black = ''d6'', to_move = White\<rparr>)) ''cxd6''"
    by (simp add: detector_eval)
  have s: "substring_in ''xd6'' ''cxd6''" by simp
  from reciprocal_capture_returns_nothing [OF h q r, of "[''Nf3'']"] h q s
  show ?thesis by simp
qed

text \<open>
  C5. If the whole token sequence has been processed and a capture is still pending (no
  \<^verbatim>\<open>return\<close> was reached), the detector returns nothing.
\<close>

theorem pending_at_end_returns_nothing:
  assumes "examined_with moves st (Some f)"
  shows "get_botez_gambit moves = None"
proof -
  have "get_botez_gambit (moves @ []) = replay (length moves) [] st (Some f)"
    using assms by (rule get_botez_gambit_append)
  then show ?thesis by simp
qed

theorem pending_at_end_returns_nothing_witness:
  "examined_with [''d4'', ''d5'', ''Qd3'', ''Qd6'', ''Qxd6'', ''cxb3+'']
     \<lparr>white = ''d6'', black = ''d6'', to_move = White\<rparr> (Some (3, ''Qxd6''))
   \<and> get_botez_gambit [''d4'', ''d5'', ''Qd3'', ''Qd6'', ''Qxd6'', ''cxb3+''] = None"
proof -
  have h: "examined_with [''d4'', ''d5'', ''Qd3'', ''Qd6'', ''Qxd6'', ''cxb3+'']
     \<lparr>white = ''d6'', black = ''d6'', to_move = White\<rparr> (Some (3, ''Qxd6''))"
    by (simp add: detector_eval)
  from pending_at_end_returns_nothing [OF h] h show ?thesis by simp
qed

text \<open>
  C8, as stated, fails for the checkmate-marked variants: line 124 deletes \<open>+\<close> only, so the
  marker \<open>#\<close> stays in the stored text.
\<close>

theorem queen_square_mate_counterexample:
  "startswith ''Qh5#'' ''Q''
   \<and> process_move 0 ''Qh5#'' initial_status None
       = Continue \<lparr>white = ''h5#'', black = ''d8'', to_move = Black\<rparr> None
   \<and> ''h5#'' \<noteq> ''h5''"
  by (simp add: detector_eval)

text \<open>
  C8, amended. For every token that begins with \<open>Q\<close> and whose processing goes on to the
  next token, the tracked square of the side to move becomes the token with every \<open>+\<close>
  deleted and then every \<open>Q\<close> (with an \<open>x\<close> directly after it) deleted; the other side's
  square is unchanged. For the forms \<open>Q<sq>\<close>, \<open>Qx<sq>\<close>, \<open>Q<sq>+\<close>, \<open>Qx<sq>+\<close> the stored
  text is \<open><sq>\<close>; for \<open>Q<sq>#\<close> and \<open>Qx<sq>#\<close> it is \<open><sq>#\<close>. Here \<open><sq>\<close> is any text without
  \<open>Q\<close> and \<open>+\<close> that does not begin with \<open>x\<close>, as every board square is.
\<close>

theorem queen_token_updates_square:
  assumes "startswith move ''Q''"
    and "process_move i move st fq = Continue st' fq'"
    and "CHR ''Q'' \<notin> set sq" and "CHR ''+'' \<notin> set sq" and "\<not> startswith sq ''x''"
  shows "queen_square st' (to_move st) = sub_queen_marker (filter (\<lambda>c. c \<noteq> CHR ''+'') move)
       \<and> queen_square st' (flip_color (to_move st)) = queen_square st (flip_color (to_move st))
       \<and> (move \<in> {''Q'' @ sq, ''Qx'' @ sq, ''Q'' @ sq @ ''+'', ''Qx'' @ sq @ ''+''}
            \<longrightarrow> queen_square st' (to_move st) = sq)
       \<and> (move \<in> {''Q'' @ sq @ ''#'', ''Qx'' @ sq @ ''#''}
            \<longrightarrow> queen_square st' (to_move st) = sq @ ''#'')"
proof -
  have st': "st' = advance st move"
    using assms(2) by (rule process_move_continue)
  have keep: "filter (\<lambda>c. c \<noteq> CHR ''+'') sq = sq"
    using assms(4) by (induction sq) auto
  have plain: "sub_queen_marker sq = sq"
    using assms(3) by (rule sub_queen_marker_id)
  have mate: "sub_queen_marker (sq @ ''#'') = sq @ ''#''"
    using assms(3) by (intro sub_queen_marker_id) simp
  have q: "sub_queen_marker (CHR ''Q'' # t) = sub_queen_marker t"
    if "\<not> startswith t ''x''" for t
    using that by (cases t) auto
  have qx: "sub_queen_marker (CHR ''Q'' # CHR ''x'' # t) = sub_queen_marker t" for t
    by simp
  have nx: "\<not> startswith (sq @ ''#'') ''x''"
    using assms(5) by (cases sq) auto
  have stored: "queen_square st' (to_move st)
      = sub_queen_marker (filter (\<lambda>c. c \<noteq> CHR ''+'') move)"
    and other: "queen_square st' (flip_color (to_move st))
      = queen_square st (flip_color (to_move st))"
    using advance_queen [OF assms(1), of st] by (simp_all add: st')
  have forms: "queen_square st' (to_move st) = sq"
    if "move \<in> {''Q'' @ sq, ''Qx'' @ sq, ''Q'' @ sq @ ''+'', ''Qx'' @ sq @ ''+''}"
    using that assms(5) by (auto simp: stored keep plain q)
  have mates: "queen_square st' (to_move st) = sq @ ''#''"
    if "move \<in> {''Q'' @ sq @ ''#'', ''Qx'' @ sq @ ''#''}"
    using that nx by (auto simp: stored keep mate q)
  from stored other forms mates show ?thesis by blast
qed

theorem queen_token_updates_square_witness:
  "startswith ''Qxd8+'' ''Q''
   \<and> process_move 6 ''Qxd8+'' \<lparr>white = ''h5'', black = ''d8'', to_move = White\<rparr> None
       = Continue \<lparr>white = ''d8'', black = ''d8'', to_move = Black\<rparr> (Some (4, ''Qxd8+''))
   \<and> CHR ''Q'' \<notin> set ''d8'' \<and> CHR ''+'' \<notin> set ''d8'' \<and> \<not> startswith ''d8'' ''x''
   \<and> ''Qxd8+'' \<in> {''Q'' @ ''d8'', ''Qx'' @ ''d8'', ''Q'' @ ''d8'' @ ''+'', ''Qx'' @ ''d8'' @ ''+''}
   \<and> queen_square \<lparr>white = ''d8'', black = ''d8'', to_move = Black\<rparr> White = ''d8''"
proof -
  have a: "startswith ''Qxd8+'' ''Q''" by simp
  have b: "process_move 6 ''Qxd8+'' \<lparr>white = ''h5'', black = ''d8'', to_move = White\<rparr> None
       = Continue \<lparr>white = ''d8'', black = ''d8'', to_move = Black\<rparr> (Some (4, ''Qxd8+''))"
    by (simp add: detector_eval)
  have c: "CHR ''Q'' \<notin> set ''d8''" and d: "CHR ''+'' \<notin> set ''d8''"
    and e: "\<not> startswith ''d8'' ''x''" by simp_all
  from queen_token_updates_square [OF a b c d e] a b c d e show ?thesis by simp
qed

text \<open>
  C9. Every token whose processing goes on to the next one flips the side to move, whatever
  the pending state and the token are; so when the token at 0-based index \<open>k\<close> is examined,
  the side to move is white exactly when \<open>k\<close> is even.
\<close>

theorem side_to_move_alternates:
  "(process_move i move st fq = Continue st' fq' \<longrightarrow> to_move st' = flip_color (to_move st))
   \<and> (examined_with pre st1 fq1 \<longrightarrow> (to_move st1 = White) = even (length pre))"
proof (intro conjI impI)
  assume "process_move i move st fq = Continue st' fq'"
  then show "to_move st' = flip_color (to_move st)" by (rule process_move_flips)
next
  assume "examined_with pre st1 fq1"
  then have "run_prefix 0 pre initial_status None = Continue st1 fq1"
    by (simp add: examined_with_def)
  from run_prefix_to_move [OF this] show "(to_move st1 = White) = even (length pre)"
    by (simp add: initial_status_def)
qed

theorem side_to_move_alternates_witness:
  "process_move 2 ''Qh5'' \<lparr>white = ''d1'', black = ''d8'', to_move = White\<rparr> None
     = Continue \<lparr>white = ''h5'', black = ''d8'', to_move = Black\<rparr> None
   \<and> examined_with [''e4'', ''e5'', ''Qh5'']
       \<lparr>white = ''h5'', black = ''d8'', to_move = Black\<rparr> None
   \<and> to_move \<lparr>white = ''h5'', black = ''d8'', to_move = Black\<rparr> = flip_color White
   \<and> \<not> even (length [''e4'', ''e5'', ''Qh5''])"
proof -
  have a: "process_move 2 ''Qh5'' \<lparr>white = ''d1'', black = ''d8'', to_move = White\<rparr> None
     = Continue \<lparr>white = ''h5'', black = ''d8'', to_move = Black\<rparr> None"
    by (simp add: detector_eval)
  have b: "examined_with [''e4'', ''e5'', ''Qh5'']
       \<lparr>white = ''h5'', black = ''d8'', to_move = Black\<rparr> None"
    by (simp add: detector_eval)
  from side_to_move_alternates [of 2 "''Qh5''"
      "\<lparr>white = ''d1'', black = ''d8'', to_move = White\<rparr>" None
      "\<lparr>white = ''h5'', black = ''d8'', to_move = Black\<rparr>" None
      "[''e4'', ''e5'', ''Qh5'']" "\<lparr>white = ''h5'', black = ''d8'', to_move = Black\<rparr>" None]
    a b
  show ?thesis by simp
qed

text \<open>
  C10. A token that does not begin with \<open>Q\<close>, when its processing goes on to the next
  token, changes nothing of the tracked position but the side to move: both queen squares
  are as before.
\<close>

theorem non_queen_token_keeps_squares:
  assumes "\<not> startswith move ''Q''"
    and "process_move i move st fq = Continue st' fq'"
  shows "st' = st\<lparr>to_move := flip_color (to_move st)\<rparr>
       \<and> white st' = white st \<and> black st' = black st"
proof -
  have "st' = advance st move"
    using assms(2) by (rule process_move_continue)
  then have "st' = st\<lparr>to_move := flip_color (to_move st)\<rparr>"
    using assms(1) by (simp add: advance_non_queen)
  then show ?thesis by simp
qed

theorem non_queen_token_keeps_squares_witness:
  "\<not> startswith ''exd8'' ''Q''
   \<and> process_move 4 ''exd8'' \<lparr>white = ''h5'', black = ''d8'', to_move = White\<rparr> None
       = Continue \<lparr>white = ''h5'', black = ''d8'', to_move = Black\<rparr> (Some (3, ''exd8''))
   \<and> white \<lparr>white = ''h5'', black = ''d8'', to_move = Black\<rparr> = ''h5''
   \<and> black \<lparr>white = ''h5'', black = ''d8'', to_move = Black\<rparr> = ''d8''"
proof -
  have a: "\<not> startswith ''exd8'' ''Q''" by simp
  have b: "process_move 4 ''exd8'' \<lparr>white = ''h5'', black = ''d8'', to_move = White\<rparr> None
       = Continue \<lparr>white = ''h5'', black = ''d8'', to_move = Black\<rparr> (Some (3, ''exd8''))"
    by (simp add: detector_eval)
  from non_queen_token_keeps_squares [OF a b] a b show ?thesis by simp
qed

section \<open>Claims about the tokenizer\<close>

text \<open>
  C4, as stated, fails: line 71 takes the second piece of \<^verbatim>\<open>pgn.split('\n\n')\<close>, and a
  blob with no blank line has one piece only, so the function raises \<^verbatim>\<open>IndexError\<close>.
\<close>

theorem no_blank_line_counterexample:
  "\<not> substring_in [newline, newline] ''1. e4 e5 2. Nf3''
   \<and> get_moves_list ''1. e4 e5 2. Nf3'' = Inl IndexError"
  by (simp add: tokenizer_eval)

text \<open>
  C4, amended. The tokenizer returns a sequence exactly for the blobs that contain a blank
  line (two line feeds in a row), and raises \<^verbatim>\<open>IndexError\<close> exactly for the others; on a
  blob with a blank line the result is the split of the cleaned second piece, without its
  first fragment. The detector has no operation that can raise.
\<close>

theorem tokenizer_returns_iff_blank_line:
  "(\<exists>moves. get_moves_list pgn = Inr moves) = substring_in [newline, newline] pgn
   \<and> (get_moves_list pgn = Inl IndexError) = (\<not> substring_in [newline, newline] pgn)
   \<and> get_moves_list pgn =
       (if substring_in [newline, newline] pgn
        then Inr (tl (re_split (clean_moves (split_str [newline, newline] pgn ! 1))))
        else Inl IndexError)"
  by (simp add: get_moves_list_cases)

theorem tokenizer_returns_iff_blank_line_witness:
  "substring_in [newline, newline] (''[Event x]'' @ [newline, newline] @ ''e4 e5'')
   \<and> get_moves_list (''[Event x]'' @ [newline, newline] @ ''e4 e5'') = Inr []"
proof -
  have a: "substring_in [newline, newline] (''[Event x]'' @ [newline, newline] @ ''e4 e5'')"
    by (simp add: newline_def)
  have b: "tl (re_split (clean_moves
      (split_str [newline, newline] (''[Event x]'' @ [newline, newline] @ ''e4 e5'') ! 1))) = []"
    by (simp add: tokenizer_eval)
  from tokenizer_returns_iff_blank_line [of "''[Event x]'' @ [newline, newline] @ ''e4 e5''"] a b
  show ?thesis by simp
qed

text \<open>
  C6, as stated, fails in three of its four parts. An annotation that spans two lines is
  not matched by \<^verbatim>\<open>\{.+?\}\<close> and stays in the token; deleting \<open>1-0\<close> from \<open>1-1-00\<close> leaves
  \<open>1-0\<close>; and two move numbers in a row give an empty token.
\<close>

theorem tokenizer_output_counterexample:
  "get_moves_list ([newline, newline] @ ''1. e4 {good'' @ [newline] @ ''move} e5'')
     = Inr [''e4 {good'' @ [newline] @ ''move} e5'']
   \<and> get_moves_list ([newline, newline] @ ''1. e4 1-1-00'') = Inr [''e4 1-0'']
   \<and> get_moves_list ([newline, newline] @ ''1. 2. e4'') = Inr [[], ''e4'']"
  by (simp add: tokenizer_eval)

text \<open>
  C6, amended. For every blob on which the tokenizer returns, no token of the result
  contains a move-number marker, that is a digit directly followed by a period.
\<close>

theorem tokens_no_move_number:
  assumes "get_moves_list pgn = Inr moves" and "f \<in> set moves"
  shows "\<not> has_move_number f"
proof -
  from assms(1) obtain t where "moves = tl (re_split t)"
    by (auto simp: get_moves_list_cases split: if_splits)
  with assms(2) have "f \<in> set (re_split t)"
    using re_split_not_Nil [of t] by (cases "re_split t") simp_all
  then show ?thesis by (rule re_split_no_move_number)
qed

theorem tokens_no_move_number_witness:
  "get_moves_list ([newline, newline] @ ''1. e4 {[%clk 0:09:59]} 1... e5 2. Nf3 1-0'')
     = Inr [''e4'', ''e5'', ''Nf3'']
   \<and> ''Nf3'' \<in> set [''e4'', ''e5'', ''Nf3'']
   \<and> \<not> has_move_number ''Nf3''"
proof -
  have a: "get_moves_list ([newline, newline] @ ''1. e4 {[%clk 0:09:59]} 1... e5 2. Nf3 1-0'')
     = Inr [''e4'', ''e5'', ''Nf3'']"
    by (simp add: tokenizer_eval)
  have b: "''Nf3'' \<in> set [''e4'', ''e5'', ''Nf3'']" by simp
  from tokens_no_move_number [OF a b] a b show ?thesis by simp
qed

text \<open>
  C7. The code replaces each pair of whitespace characters by one space, so a run of three
  spaces comes out as two spaces, not one: the step and the whole tokenizer at such a text.
\<close>

theorem three_spaces_not_collapsed:
  "sub_spaces ''e4   e5'' = ''e4  e5''
   \<and> get_moves_list ([newline, newline] @ ''1. e4   e5 2. Nf3'') = Inr [''e4  e5'', ''Nf3'']"
  by (simp add: tokenizer_eval)

end
